theory Spec2Isabelle
  imports Complex_Main
begin

section \<open>LazyLoader: a registry of IntersectionObserver registrations\<close>

text \<open>
  The embedding follows \<^verbatim>\<open>src/lazyLoader.js\<close>. The class keeps a JavaScript
  \<^verbatim>\<open>Map\<close> from generated ids to records
  \<^verbatim>\<open>{observer, element, beforeUnobserve, afterUnobserve}\<close>; each call of
  \<^verbatim>\<open>observe\<close> creates one \<^verbatim>\<open>IntersectionObserver\<close> of the platform.

  What the model makes explicit:
  \<^item> DOM elements, user functions and platform observers are opaque references
    (natural numbers); calling a user function is recorded in a trace, together
    with the keys the \<^verbatim>\<open>Map\<close> holds at that moment. User functions are assumed
    to return normally and not to call back into the loader or the platform.
  \<^item> A JavaScript value that may be \<^verbatim>\<open>undefined\<close> is an \<open>option\<close>.
  \<^item> The \<^verbatim>\<open>Map\<close> is an association list in insertion order, since
    \<^verbatim>\<open>forEach\<close> visits the entries in that order.
  \<^item> The platform is a table from observer handles to the callback the observer was
    constructed with and the set of targets it tracks; a counter gives every
    \<^verbatim>\<open>new IntersectionObserver\<close> a fresh handle.
  \<^item> \<^verbatim>\<open>#generateId\<close> draws on \<^verbatim>\<open>Math.random\<close>; the id it returns is an
    argument of \<open>observe\<close>.
\<close>

subsection \<open>Values\<close>

type_synonym rid = string
type_synonym elem = nat
type_synonym handle = nat

datatype jsfun = UserFn nat | NoOp

record entry =
  target :: elem
  isIntersecting :: bool

record ctor_options =
  opt_threshold :: "real option"
  opt_rootMargin :: "string option"

record observe_options =
  opt_beforeUnobserve :: "jsfun option"
  opt_afterUnobserve :: "jsfun option"

record observer_record =
  observer :: handle
  element :: elem
  beforeUnobserve :: jsfun
  afterUnobserve :: jsfun

record lazy_loader =
  threshold :: "real option"
  rootMargin :: "string option"
  observers :: "(rid \<times> observer_record) list"

subsection \<open>The JavaScript Map operations the class uses\<close>

fun map_set :: "'k \<Rightarrow> 'v \<Rightarrow> ('k \<times> 'v) list \<Rightarrow> ('k \<times> 'v) list" where
  "map_set k v [] = [(k, v)]"
| "map_set k v ((k', v') # kvs) =
     (if k' = k then (k, v) # kvs else (k', v') # map_set k v kvs)"

definition map_delete :: "'k \<Rightarrow> ('k \<times> 'v) list \<Rightarrow> ('k \<times> 'v) list" where
  "map_delete k kvs = filter (\<lambda>p. fst p \<noteq> k) kvs"

definition map_has :: "'k \<Rightarrow> ('k \<times> 'v) list \<Rightarrow> bool" where
  "map_has k kvs = (map_of kvs k \<noteq> None)"

definition map_keys :: "('k \<times> 'v) list \<Rightarrow> 'k list" where
  "map_keys kvs = map fst kvs"

subsection \<open>The platform and the trace\<close>

record watcher =
  wthreshold :: "real option"
  wrootMargin :: "string option"
  wcallback :: jsfun
  wtargets :: "elem set"

datatype event =
    CallbackCalled handle jsfun entry
  | BeforeUnobserveCalled jsfun elem handle
  | AfterUnobserveCalled jsfun elem handle
  | WatcherCreated handle "real option" "string option"
  | WatcherObserve handle elem
  | WatcherUnobserve handle elem
  | WatcherDisconnect handle

record world =
  self :: lazy_loader
  watchers :: "handle \<Rightarrow> watcher option"
  next_handle :: handle
  trace :: "(event \<times> rid list) list"

text \<open>An effect is logged with the keys of \<^verbatim>\<open>this.observers\<close> at that moment.\<close>

definition emit :: "event \<Rightarrow> world \<Rightarrow> world" where
  "emit e s = s\<lparr>trace := trace s @ [(e, map_keys (observers (self s)))]\<rparr>"

text \<open>\<^verbatim>\<open>new IntersectionObserver(handler, {threshold, rootMargin})\<close>, the handler
  being the closure of \<open>observe\<close> over \<open>callback\<close>.\<close>

definition watcher_new :: "jsfun \<Rightarrow> real option \<Rightarrow> string option \<Rightarrow> world \<Rightarrow> world" where
  "watcher_new cb th rm s =
     emit (WatcherCreated (next_handle s) th rm)
       (s\<lparr>watchers := (watchers s)(next_handle s \<mapsto>
              \<lparr>wthreshold = th, wrootMargin = rm, wcallback = cb, wtargets = {}\<rparr>),
          next_handle := Suc (next_handle s)\<rparr>)"

definition watcher_observe :: "handle \<Rightarrow> elem \<Rightarrow> world \<Rightarrow> world" where
  "watcher_observe h el s =
     emit (WatcherObserve h el)
       (case watchers s h of
          None \<Rightarrow> s
        | Some w \<Rightarrow> s\<lparr>watchers := (watchers s)(h \<mapsto> w\<lparr>wtargets := insert el (wtargets w)\<rparr>)\<rparr>)"

definition watcher_unobserve :: "handle \<Rightarrow> elem \<Rightarrow> world \<Rightarrow> world" where
  "watcher_unobserve h el s =
     emit (WatcherUnobserve h el)
       (case watchers s h of
          None \<Rightarrow> s
        | Some w \<Rightarrow> s\<lparr>watchers := (watchers s)(h \<mapsto> w\<lparr>wtargets := wtargets w - {el}\<rparr>)\<rparr>)"

definition watcher_disconnect :: "handle \<Rightarrow> world \<Rightarrow> world" where
  "watcher_disconnect h s =
     emit (WatcherDisconnect h)
       (case watchers s h of
          None \<Rightarrow> s
        | Some w \<Rightarrow> s\<lparr>watchers := (watchers s)(h \<mapsto> w\<lparr>wtargets := {}\<rparr>)\<rparr>)"

subsection \<open>The class\<close>

text \<open>\<^verbatim>\<open>constructor(options = {threshold: 0.1, rootMargin: '0px'})\<close>: the default
  stands for the whole argument when it is omitted; the two fields are then read
  from whichever object is in hand.\<close>

definition constructor :: "ctor_options option \<Rightarrow> lazy_loader" where
  "constructor options =
     (let opts = (case options of
                    None \<Rightarrow> \<lparr>opt_threshold = Some 0.1, opt_rootMargin = Some ''0px''\<rparr>
                  | Some given \<Rightarrow> given)
      in \<lparr>threshold = opt_threshold opts,
          rootMargin = opt_rootMargin opts,
          observers = []\<rparr>)"

text \<open>\<^verbatim>\<open>#unobserve(id)\<close>.\<close>

definition unobserve :: "rid \<Rightarrow> world \<Rightarrow> world" where
  "unobserve i s =
     (if \<not> map_has i (observers (self s)) then s
      else case map_of (observers (self s)) i of
        None \<Rightarrow> s
      | Some r \<Rightarrow>
          (let s1 = emit (BeforeUnobserveCalled (beforeUnobserve r) (element r) (observer r)) s;
               s2 = watcher_unobserve (observer r) (element r) s1;
               s3 = s2\<lparr>self := (self s2)\<lparr>observers := map_delete i (observers (self s2))\<rparr>\<rparr>
           in emit (AfterUnobserveCalled (afterUnobserve r) (element r) (observer r)) s3))"

text \<open>The handler given to \<^verbatim>\<open>new IntersectionObserver\<close> inside \<open>observe\<close>, for one
  entry of \<^verbatim>\<open>entries.forEach\<close>; \<open>h\<close> is the observer the platform passes as the
  second argument.\<close>

definition on_entry :: "jsfun \<Rightarrow> handle \<Rightarrow> entry \<Rightarrow> world \<Rightarrow> world" where
  "on_entry cb h e s =
     (if isIntersecting e
      then watcher_unobserve h (target e) (emit (CallbackCalled h cb e) s)
      else s)"

text \<open>The platform invoking the handler of observer \<open>h\<close> with a list of entries.\<close>

definition deliver :: "handle \<Rightarrow> entry list \<Rightarrow> world \<Rightarrow> world" where
  "deliver h entries s =
     (case watchers s h of
        None \<Rightarrow> s
      | Some w \<Rightarrow> fold (on_entry (wcallback w) h) entries s)"

text \<open>\<^verbatim>\<open>observe(callback, element, options = {})\<close>; the result is the returned
  stop function and the new state.\<close>

definition observe ::
  "jsfun \<Rightarrow> elem \<Rightarrow> observe_options \<Rightarrow> rid \<Rightarrow> world \<Rightarrow> (world \<Rightarrow> world) \<times> world" where
  "observe callback el options i s =
     (let before = (case opt_beforeUnobserve options of Some f \<Rightarrow> f | None \<Rightarrow> NoOp);
          after = (case opt_afterUnobserve options of Some f \<Rightarrow> f | None \<Rightarrow> NoOp);
          h = next_handle s;
          s1 = watcher_new callback (threshold (self s)) (rootMargin (self s)) s;
          s2 = watcher_observe h el s1;
          s3 = s2\<lparr>self := (self s2)\<lparr>observers :=
                 map_set i \<lparr>observer = h, element = el,
                            beforeUnobserve = before, afterUnobserve = after\<rparr>
                   (observers (self s2))\<rparr>\<rparr>
      in (unobserve i, s3))"

text \<open>\<^verbatim>\<open>disconnect()\<close>.\<close>

definition disconnect_one :: "rid \<times> observer_record \<Rightarrow> world \<Rightarrow> world" where
  "disconnect_one p s =
     (let r = snd p;
          s1 = emit (BeforeUnobserveCalled (beforeUnobserve r) (element r) (observer r)) s;
          s2 = watcher_disconnect (observer r) s1
      in emit (AfterUnobserveCalled (afterUnobserve r) (element r) (observer r)) s2)"

definition disconnect :: "world \<Rightarrow> world" where
  "disconnect s =
     (let s1 = fold disconnect_one (observers (self s)) s
      in s1\<lparr>self := (self s1)\<lparr>observers := []\<rparr>\<rparr>)"

subsection \<open>Runs of a registry\<close>

text \<open>A page with a freshly constructed loader: no observer exists yet.\<close>

definition new_world :: "ctor_options option \<Rightarrow> world" where
  "new_world options =
     \<lparr>self = constructor options, watchers = (\<lambda>_. None), next_handle = 0, trace = []\<rparr>"

datatype action =
    Observe jsfun elem observe_options rid
  | Stop rid
  | Disconnect
  | Deliver handle "entry list"

fun perform :: "action \<Rightarrow> world \<Rightarrow> world" where
  "perform (Observe cb el opts i) s = snd (observe cb el opts i s)"
| "perform (Stop i) s = unobserve i s"
| "perform Disconnect s = disconnect s"
| "perform (Deliver h es) s = deliver h es s"

definition run :: "action list \<Rightarrow> world \<Rightarrow> world" where
  "run as s = fold perform as s"

text \<open>What happened between two states: the part of the later trace beyond the earlier.\<close>

definition new_events :: "world \<Rightarrow> world \<Rightarrow> (event \<times> rid list) list" where
  "new_events s s' = drop (length (trace s)) (trace s')"

subsection \<open>Reading a trace\<close>

fun is_before :: "event \<Rightarrow> bool" where
  "is_before (BeforeUnobserveCalled f el h) = True"
| "is_before _ = False"

fun is_after :: "event \<Rightarrow> bool" where
  "is_after (AfterUnobserveCalled f el h) = True"
| "is_after _ = False"

fun is_callback_of :: "handle \<Rightarrow> event \<Rightarrow> bool" where
  "is_callback_of h (CallbackCalled h' f e) = (h' = h)"
| "is_callback_of h _ = False"


definition callbacks :: "handle \<Rightarrow> (event \<times> rid list) list \<Rightarrow> event list" where
  "callbacks h evs = filter (is_callback_of h) (map fst evs)"

definition before_count :: "(event \<times> rid list) list \<Rightarrow> nat" where
  "before_count evs = length (filter is_before (map fst evs))"

definition after_count :: "(event \<times> rid list) list \<Rightarrow> nat" where
  "after_count evs = length (filter is_after (map fst evs))"

text \<open>The events one entry of a delivered list adds, and the events \<open>disconnect\<close> adds
  for one record; \<open>ks\<close> are the keys of the map at that moment.\<close>

definition entry_events :: "jsfun \<Rightarrow> handle \<Rightarrow> rid list \<Rightarrow> entry \<Rightarrow> (event \<times> rid list) list" where
  "entry_events cb h ks e =
     (if isIntersecting e
      then [(CallbackCalled h cb e, ks), (WatcherUnobserve h (target e), ks)] else [])"

definition disconnect_events :: "rid list \<Rightarrow> rid \<times> observer_record \<Rightarrow> (event \<times> rid list) list" where
  "disconnect_events ks p =
     [(BeforeUnobserveCalled (beforeUnobserve (snd p)) (element (snd p)) (observer (snd p)), ks),
      (WatcherDisconnect (observer (snd p)), ks),
      (AfterUnobserveCalled (afterUnobserve (snd p)) (element (snd p)) (observer (snd p)), ks)]"

subsection \<open>What the platform may deliver\<close>

text \<open>The platform reports on the targets an observer is tracking: a list of entries is
  delivered to an observer that exists, and every entry's target is one the observer
  tracks when the handler is invoked. The other actions are calls of the page and are
  always possible.\<close>

fun admissible :: "world \<Rightarrow> action \<Rightarrow> bool" where
  "admissible s (Deliver h es) =
     (case watchers s h of
        None \<Rightarrow> False
      | Some w \<Rightarrow> list_all (\<lambda>e. target e \<in> wtargets w) es)"
| "admissible s a = True"

fun valid_run :: "world \<Rightarrow> action list \<Rightarrow> bool" where
  "valid_run s [] = True"
| "valid_run s (a # as) = (admissible s a \<and> valid_run (perform a s) as)"

text \<open>Every list delivered to observer \<open>h\<close> holds at most one intersecting entry.\<close>

fun single_reports :: "handle \<Rightarrow> action list \<Rightarrow> bool" where
  "single_reports h [] = True"
| "single_reports h (Deliver h' es # as) =
     ((h' = h \<longrightarrow> length (filter isIntersecting es) \<le> 1) \<and> single_reports h as)"
| "single_reports h (a # as) = single_reports h as"

text \<open>Some list delivered to observer \<open>h\<close> holds an intersecting entry.\<close>

fun reports_intersecting :: "handle \<Rightarrow> action list \<Rightarrow> bool" where
  "reports_intersecting h [] = False"
| "reports_intersecting h (Deliver h' es # as) =
     ((h' = h \<and> filter isIntersecting es \<noteq> []) \<or> reports_intersecting h as)"
| "reports_intersecting h (a # as) = reports_intersecting h as"

subsection \<open>The invariant of the data model\<close>

text \<open>A record is active when its observer still tracks its element. Every id of the map
  has one record, hence one handle; the handles of different ids differ.\<close>

definition record_active :: "world \<Rightarrow> observer_record \<Rightarrow> bool" where
  "record_active s r =
     (case watchers s (observer r) of
        None \<Rightarrow> False
      | Some w \<Rightarrow> element r \<in> wtargets w)"

definition records_active :: "world \<Rightarrow> bool" where
  "records_active s =
     (list_all (\<lambda>p. record_active s (snd p)) (observers (self s)) \<and>
      distinct (map (\<lambda>p. observer (snd p)) (observers (self s))))"

text \<open>Handles in the map were all handed out by the counter, each to one record.\<close>

definition handles_fresh :: "world \<Rightarrow> bool" where
  "handles_fresh s =
     (list_all (\<lambda>p. observer (snd p) < next_handle s) (observers (self s)) \<and>
      distinct (map (\<lambda>p. observer (snd p)) (observers (self s))))"

text \<open>Observer \<open>h\<close> exists, was constructed with callback \<open>cb\<close>, and tracks no target
  outside \<open>T\<close>.\<close>

definition owned :: "handle \<Rightarrow> jsfun \<Rightarrow> elem set \<Rightarrow> world \<Rightarrow> bool" where
  "owned h cb T s =
     (h < next_handle s \<and>
      (case watchers s h of
         None \<Rightarrow> False
       | Some w \<Rightarrow> wcallback w = cb \<and> wtargets w \<subseteq> T))"

subsection \<open>Example pages\<close>

text \<open>A page with a default loader that observes element 7 under the id \<open>a\<close> with both
  hooks, and one that goes on to observe element 8 under the id \<open>b\<close> without hooks; an
  intersecting and a non-intersecting entry for element 7.\<close>

abbreviation demo_hooks :: observe_options where
  "demo_hooks \<equiv> \<lparr>opt_beforeUnobserve = Some (UserFn 2), opt_afterUnobserve = Some (UserFn 3)\<rparr>"

abbreviation no_hooks :: observe_options where
  "no_hooks \<equiv> \<lparr>opt_beforeUnobserve = None, opt_afterUnobserve = None\<rparr>"

abbreviation one_observed :: world where
  "one_observed \<equiv> snd (observe (UserFn 1) 7 demo_hooks ''a'' (new_world None))"

abbreviation two_observed :: world where
  "two_observed \<equiv> snd (observe (UserFn 4) 8 no_hooks ''b'' one_observed)"

abbreviation seen :: entry where
  "seen \<equiv> \<lparr>target = 7, isIntersecting = True\<rparr>"

abbreviation unseen :: entry where
  "unseen \<equiv> \<lparr>target = 7, isIntersecting = False\<rparr>"

section \<open>Basic facts\<close>

subsection \<open>The effects of the platform operations\<close>

lemma self_emit [simp]: "self (emit e s) = self s"
  and watchers_emit [simp]: "watchers (emit e s) = watchers s"
  and next_handle_emit [simp]: "next_handle (emit e s) = next_handle s"
  and trace_emit [simp]: "trace (emit e s) = trace s @ [(e, map_keys (observers (self s)))]"
  by (simp_all add: emit_def)

lemma self_watcher_unobserve [simp]: "self (watcher_unobserve h el s) = self s"
  and next_handle_watcher_unobserve [simp]:
    "next_handle (watcher_unobserve h el s) = next_handle s"
  and trace_watcher_unobserve [simp]:
    "trace (watcher_unobserve h el s) =
       trace s @ [(WatcherUnobserve h el, map_keys (observers (self s)))]"
  and watchers_watcher_unobserve [simp]:
    "watchers (watcher_unobserve h el s) =
       (case watchers s h of None \<Rightarrow> watchers s
        | Some w \<Rightarrow> (watchers s)(h \<mapsto> w\<lparr>wtargets := wtargets w - {el}\<rparr>))"
  by (simp_all add: watcher_unobserve_def split: option.splits)

lemma self_watcher_observe [simp]: "self (watcher_observe h el s) = self s"
  and next_handle_watcher_observe [simp]:
    "next_handle (watcher_observe h el s) = next_handle s"
  and trace_watcher_observe [simp]:
    "trace (watcher_observe h el s) =
       trace s @ [(WatcherObserve h el, map_keys (observers (self s)))]"
  and watchers_watcher_observe [simp]:
    "watchers (watcher_observe h el s) =
       (case watchers s h of None \<Rightarrow> watchers s
        | Some w \<Rightarrow> (watchers s)(h \<mapsto> w\<lparr>wtargets := insert el (wtargets w)\<rparr>))"
  by (simp_all add: watcher_observe_def split: option.splits)

lemma self_watcher_disconnect [simp]: "self (watcher_disconnect h s) = self s"
  and next_handle_watcher_disconnect [simp]:
    "next_handle (watcher_disconnect h s) = next_handle s"
  and trace_watcher_disconnect [simp]:
    "trace (watcher_disconnect h s) =
       trace s @ [(WatcherDisconnect h, map_keys (observers (self s)))]"
  and watchers_watcher_disconnect [simp]:
    "watchers (watcher_disconnect h s) =
       (case watchers s h of None \<Rightarrow> watchers s
        | Some w \<Rightarrow> (watchers s)(h \<mapsto> w\<lparr>wtargets := {}\<rparr>))"
  by (simp_all add: watcher_disconnect_def split: option.splits)

lemma self_watcher_new [simp]: "self (watcher_new cb th rm s) = self s"
  and next_handle_watcher_new [simp]:
    "next_handle (watcher_new cb th rm s) = Suc (next_handle s)"
  and trace_watcher_new [simp]:
    "trace (watcher_new cb th rm s) =
       trace s @ [(WatcherCreated (next_handle s) th rm, map_keys (observers (self s)))]"
  and watchers_watcher_new [simp]:
    "watchers (watcher_new cb th rm s) =
       (watchers s)(next_handle s \<mapsto>
          \<lparr>wthreshold = th, wrootMargin = rm, wcallback = cb, wtargets = {}\<rparr>)"
  by (simp_all add: watcher_new_def)

lemma map_has_iff: "map_has k kvs \<longleftrightarrow> k \<in> set (map_keys kvs)"
  by (simp add: map_has_def map_keys_def map_of_eq_None_iff)


lemma unobserve_absent: "\<not> map_has i (observers (self s)) \<Longrightarrow> unobserve i s = s"
  by (simp add: unobserve_def)

lemma unobserve_present:
  assumes "map_of (observers (self s)) i = Some r"
  shows "self (unobserve i s) = (self s)\<lparr>observers := map_delete i (observers (self s))\<rparr>"
    and "trace (unobserve i s) = trace s @
          [(BeforeUnobserveCalled (beforeUnobserve r) (element r) (observer r),
              map_keys (observers (self s))),
           (WatcherUnobserve (observer r) (element r), map_keys (observers (self s))),
           (AfterUnobserveCalled (afterUnobserve r) (element r) (observer r),
              map_keys (map_delete i (observers (self s))))]"
    and "next_handle (unobserve i s) = next_handle s"
    and "watchers (unobserve i s) =
       (case watchers s (observer r) of None \<Rightarrow> watchers s
        | Some w \<Rightarrow> (watchers s)(observer r \<mapsto> w\<lparr>wtargets := wtargets w - {element r}\<rparr>))"
  using assms by (simp_all add: unobserve_def map_has_def Let_def split: option.splits)

lemma self_on_entry [simp]: "self (on_entry cb h e s) = self s"
  and next_handle_on_entry [simp]: "next_handle (on_entry cb h e s) = next_handle s"
  and trace_on_entry:
    "trace (on_entry cb h e s) = trace s @ entry_events cb h (map_keys (observers (self s))) e"
  by (simp_all add: on_entry_def entry_events_def)

lemma watchers_on_entry_other: "h' \<noteq> h \<Longrightarrow> watchers (on_entry cb h e s) h' = watchers s h'"
  by (simp add: on_entry_def split: option.splits)

lemma watchers_on_entry_same:
  "watchers (on_entry cb h e s) h =
     map_option (\<lambda>w. w\<lparr>wtargets := wtargets w - (if isIntersecting e then {target e} else {})\<rparr>)
       (watchers s h)"
  by (simp add: on_entry_def split: option.splits)

lemma self_fold_on_entry [simp]: "self (fold (on_entry cb h) es s) = self s"
  by (induction es arbitrary: s) simp_all

lemma next_handle_fold_on_entry [simp]:
  "next_handle (fold (on_entry cb h) es s) = next_handle s"
  by (induction es arbitrary: s) simp_all

lemma trace_fold_on_entry:
  "trace (fold (on_entry cb h) es s) =
     trace s @ concat (map (entry_events cb h (map_keys (observers (self s)))) es)"
  by (induction es arbitrary: s) (simp_all add: trace_on_entry)

lemma watchers_fold_on_entry_other:
  "h' \<noteq> h \<Longrightarrow> watchers (fold (on_entry cb h) es s) h' = watchers s h'"
  by (induction es arbitrary: s) (simp_all add: watchers_on_entry_other)

lemma watchers_fold_on_entry_same:
  "watchers (fold (on_entry cb h) es s) h =
     map_option (\<lambda>w. w\<lparr>wtargets := wtargets w - target ` set (filter isIntersecting es)\<rparr>)
       (watchers s h)"
proof (induction es arbitrary: s)
  case Nil
  show ?case by (cases "watchers s h") simp_all
next
  case (Cons e es)
  have minus: "\<And>A B t. A - {t} - B = A - insert (t::elem) B"
    by blast
  show ?case
    by (cases "watchers s h") (simp_all add: Cons watchers_on_entry_same minus)
qed

lemma self_deliver [simp]: "self (deliver h es s) = self s"
  and next_handle_deliver [simp]: "next_handle (deliver h es s) = next_handle s"
  by (simp_all add: deliver_def split: option.splits)

lemma trace_deliver:
  "trace (deliver h es s) =
     (case watchers s h of None \<Rightarrow> trace s
      | Some w \<Rightarrow> trace s @
          concat (map (entry_events (wcallback w) h (map_keys (observers (self s)))) es))"
  by (simp add: deliver_def trace_fold_on_entry split: option.splits)

lemma watchers_deliver_other: "h' \<noteq> h \<Longrightarrow> watchers (deliver h es s) h' = watchers s h'"
  by (simp add: deliver_def watchers_fold_on_entry_other split: option.splits)

lemma watchers_deliver_same:
  "watchers (deliver h es s) h =
     map_option (\<lambda>w. w\<lparr>wtargets := wtargets w - target ` set (filter isIntersecting es)\<rparr>)
       (watchers s h)"
  by (simp add: deliver_def watchers_fold_on_entry_same split: option.splits)

lemma self_disconnect_one [simp]: "self (disconnect_one p s) = self s"
  and next_handle_disconnect_one [simp]: "next_handle (disconnect_one p s) = next_handle s"
  and trace_disconnect_one:
    "trace (disconnect_one p s) = trace s @ disconnect_events (map_keys (observers (self s))) p"
  by (simp_all add: disconnect_one_def disconnect_events_def Let_def)

lemma watchers_disconnect_one:
  "watchers (disconnect_one p s) h =
     (if h = observer (snd p) then map_option (\<lambda>w. w\<lparr>wtargets := {}\<rparr>) (watchers s h)
      else watchers s h)"
  by (simp add: disconnect_one_def Let_def split: option.splits)

lemma self_fold_disconnect_one [simp]: "self (fold disconnect_one ps s) = self s"
  by (induction ps arbitrary: s) simp_all

lemma next_handle_fold_disconnect_one [simp]:
  "next_handle (fold disconnect_one ps s) = next_handle s"
  by (induction ps arbitrary: s) simp_all

lemma trace_fold_disconnect_one:
  "trace (fold disconnect_one ps s) =
     trace s @ concat (map (disconnect_events (map_keys (observers (self s)))) ps)"
  by (induction ps arbitrary: s) (simp_all add: trace_disconnect_one)

lemma watchers_fold_disconnect_one:
  "watchers (fold disconnect_one ps s) h =
     (if h \<in> set (map (\<lambda>p. observer (snd p)) ps)
      then map_option (\<lambda>w. w\<lparr>wtargets := {}\<rparr>) (watchers s h)
      else watchers s h)"
proof (induction ps arbitrary: s)
  case Nil
  show ?case by simp
next
  case (Cons p ps)
  show ?case
    by (cases "watchers s h") (auto simp: Cons watchers_disconnect_one)
qed

lemma self_disconnect: "self (disconnect s) = (self s)\<lparr>observers := []\<rparr>"
  and next_handle_disconnect [simp]: "next_handle (disconnect s) = next_handle s"
  and trace_disconnect:
    "trace (disconnect s) =
       trace s @ concat (map (disconnect_events (map_keys (observers (self s))))
                           (observers (self s)))"
  and watchers_disconnect:
    "watchers (disconnect s) h =
     (if h \<in> set (map (\<lambda>p. observer (snd p)) (observers (self s)))
      then map_option (\<lambda>w. w\<lparr>wtargets := {}\<rparr>) (watchers s h)
      else watchers s h)"
  by (simp_all add: disconnect_def Let_def trace_fold_disconnect_one
        watchers_fold_disconnect_one)

lemma new_events_append: "trace s' = trace s @ evs \<Longrightarrow> new_events s s' = evs"
  by (simp add: new_events_def)

subsection \<open>Further facts about the operations\<close>

lemma stop_function: "fst (observe cb el opts i s0) = unobserve i"
  by (simp add: observe_def Let_def)

lemma map_keys_map_delete: "i \<notin> set (map_keys (map_delete i kvs))"
  by (auto simp: map_keys_def map_delete_def)

lemma map_of_in_keys: "map_of kvs i = Some r \<Longrightarrow> i \<in> set (map_keys kvs)"
  by (metis map_has_def map_has_iff option.distinct(1))

lemma world_self_same [simp]: "s\<lparr>self := self s\<rparr> = s"
  by (cases s) simp

lemma constructor_fields:
  "constructor None = \<lparr>threshold = Some 0.1, rootMargin = Some ''0px'', observers = []\<rparr> \<and>
   constructor (Some given) =
     \<lparr>threshold = opt_threshold given, rootMargin = opt_rootMargin given, observers = []\<rparr>"
  by (simp add: constructor_def)

lemma threshold_perform [simp]: "threshold (self (perform a s)) = threshold (self s)"
  and rootMargin_perform [simp]: "rootMargin (self (perform a s)) = rootMargin (self s)"
  by (cases a; simp add: observe_def Let_def unobserve_def self_disconnect split: option.splits)+

lemma threshold_run [simp]: "threshold (self (run as s)) = threshold (self s)"
  and rootMargin_run [simp]: "rootMargin (self (run as s)) = rootMargin (self s)"
  by (induction as arbitrary: s; simp add: run_def)+

lemmas evals =
  observe_def unobserve_def deliver_def on_entry_def disconnect_def disconnect_one_def
  new_world_def constructor_def watcher_new_def watcher_observe_def watcher_unobserve_def
  watcher_disconnect_def emit_def run_def new_events_def map_has_def map_delete_def
  map_keys_def Let_def

lemma disconnect_events_fst:
  "map fst (concat (map (disconnect_events ks) ps)) =
     concat (map (\<lambda>p. [BeforeUnobserveCalled (beforeUnobserve (snd p)) (element (snd p)) (observer (snd p)),
                        WatcherDisconnect (observer (snd p)),
                        AfterUnobserveCalled (afterUnobserve (snd p)) (element (snd p)) (observer (snd p))]) ps)"
  by (induction ps) (simp_all add: disconnect_events_def)

lemma disconnect_events_counts:
  "before_count (concat (map (disconnect_events ks) ps)) = length ps"
  "after_count (concat (map (disconnect_events ks) ps)) = length ps"
  by (induction ps) (simp_all add: disconnect_events_def before_count_def after_count_def)

lemma new_events_disconnect:
  "new_events s (disconnect s) =
     concat (map (disconnect_events (map_keys (observers (self s)))) (observers (self s)))"
  by (rule new_events_append) (rule trace_disconnect)

lemma new_events_same: "new_events s s = []"
  by (simp add: new_events_def)

lemma loader_cleared:
  "threshold l = threshold l' \<Longrightarrow> rootMargin l = rootMargin l' \<Longrightarrow> observers l' = [] \<Longrightarrow>
   l\<lparr>observers := []\<rparr> = (l' :: lazy_loader)"
  by (cases l; cases l') simp

lemma self_observe:
  "self (snd (observe cb el opts i s)) =
     (self s)\<lparr>observers :=
        map_set i \<lparr>observer = next_handle s, element = el,
                   beforeUnobserve = (case opt_beforeUnobserve opts of Some f \<Rightarrow> f | None \<Rightarrow> NoOp),
                   afterUnobserve = (case opt_afterUnobserve opts of Some f \<Rightarrow> f | None \<Rightarrow> NoOp)\<rparr>
          (observers (self s))\<rparr>"
  and next_handle_observe: "next_handle (snd (observe cb el opts i s)) = Suc (next_handle s)"
  and trace_observe:
    "trace (snd (observe cb el opts i s)) = trace s @
       [(WatcherCreated (next_handle s) (threshold (self s)) (rootMargin (self s)),
           map_keys (observers (self s))),
        (WatcherObserve (next_handle s) el, map_keys (observers (self s)))]"
  and watchers_observe:
    "watchers (snd (observe cb el opts i s)) =
       (watchers s)(next_handle s \<mapsto>
          \<lparr>wthreshold = threshold (self s), wrootMargin = rootMargin (self s),
           wcallback = cb, wtargets = {el}\<rparr>)"
  by (simp_all add: observe_def Let_def)

lemma next_handle_unobserve: "next_handle (unobserve i s) = next_handle s"
  by (simp add: unobserve_def Let_def split: option.splits)

lemma watchers_unobserve:
  "watchers (unobserve i s) h =
     (case map_of (observers (self s)) i of
        None \<Rightarrow> watchers s h
      | Some r \<Rightarrow>
          if h = observer r
          then map_option (\<lambda>w. w\<lparr>wtargets := wtargets w - {element r}\<rparr>) (watchers s h)
          else watchers s h)"
proof (cases "map_of (observers (self s)) i")
  case None
  then show ?thesis
    by (simp add: unobserve_absent map_has_def)
next
  case (Some r)
  show ?thesis
    by (simp add: Some unobserve_present(4) [OF Some] split: option.splits)
qed

lemma new_events_unobserve:
  "new_events s (unobserve i s) =
     (case map_of (observers (self s)) i of
        None \<Rightarrow> []
      | Some r \<Rightarrow>
          [(BeforeUnobserveCalled (beforeUnobserve r) (element r) (observer r),
              map_keys (observers (self s))),
           (WatcherUnobserve (observer r) (element r), map_keys (observers (self s))),
           (AfterUnobserveCalled (afterUnobserve r) (element r) (observer r),
              map_keys (map_delete i (observers (self s))))])"
proof (cases "map_of (observers (self s)) i")
  case None
  then show ?thesis
    by (simp add: unobserve_absent map_has_def new_events_same)
next
  case (Some r)
  show ?thesis
    by (rule new_events_append) (simp add: Some unobserve_present(2) [OF Some])
qed

lemma new_events_observe:
  "new_events s (snd (observe cb el opts i s)) =
       [(WatcherCreated (next_handle s) (threshold (self s)) (rootMargin (self s)),
           map_keys (observers (self s))),
        (WatcherObserve (next_handle s) el, map_keys (observers (self s)))]"
  by (rule new_events_append) (rule trace_observe)

lemma new_events_deliver:
  "new_events s (deliver h es s) =
     (case watchers s h of
        None \<Rightarrow> []
      | Some w \<Rightarrow> concat (map (entry_events (wcallback w) h (map_keys (observers (self s)))) es))"
  by (rule new_events_append) (simp add: trace_deliver split: option.splits)

lemma on_entry_not_intersecting: "\<not> isIntersecting e \<Longrightarrow> on_entry cb h e s = s"
  by (simp add: on_entry_def)

lemma deliver_not_intersecting:
  "list_all (\<lambda>e. \<not> isIntersecting e) es \<Longrightarrow> deliver h es s = s"
proof -
  assume quiet: "list_all (\<lambda>e. \<not> isIntersecting e) es"
  have "fold (on_entry cb h) es t = t" for cb t
    using quiet by (induction es arbitrary: t) (simp_all add: on_entry_not_intersecting)
  then show ?thesis
    by (simp add: deliver_def split: option.splits)
qed

lemma set_map_set: "set (map_set k v kvs) \<subseteq> insert (k, v) (set kvs)"
  by (induction kvs) (auto split: if_splits)

subsection \<open>Traces of runs\<close>

lemma trace_perform: "\<exists>evs. trace (perform a s) = trace s @ evs"
proof (cases a)
  case (Stop i)
  show ?thesis
    by (cases "map_of (observers (self s)) i")
       (simp_all add: Stop unobserve_absent map_has_def unobserve_present(2))
qed (simp_all add: trace_observe trace_disconnect trace_deliver split: option.splits)

lemma trace_run: "\<exists>evs. trace (run as s) = trace s @ evs"
proof (induction as arbitrary: s)
  case Nil
  show ?case by (simp add: run_def)
next
  case (Cons a as)
  obtain evs where 1: "trace (perform a s) = trace s @ evs"
    using trace_perform by blast
  obtain evs' where 2: "trace (run as (perform a s)) = trace (perform a s) @ evs'"
    using Cons by blast
  show ?case
    using 1 2 by (simp add: run_def)
qed

lemma run_Cons: "run (a # as) s = run as (perform a s)"
  by (simp add: run_def)

lemma new_events_run_Cons:
  "new_events s (run (a # as) s) =
     new_events s (perform a s) @ new_events (perform a s) (run as (perform a s))"
proof -
  obtain evs where 1: "trace (perform a s) = trace s @ evs"
    using trace_perform by blast
  obtain evs' where 2: "trace (run as (perform a s)) = trace (perform a s) @ evs'"
    using trace_run by blast
  show ?thesis
    using 1 2 by (simp add: run_Cons new_events_def)
qed

subsection \<open>Handles are handed out once\<close>

lemma handles_map_set:
  fixes g :: "'k \<times> 'v \<Rightarrow> nat"
  assumes "list_all (\<lambda>p. g p < n) kvs" and "distinct (map g kvs)" and "g (k, v) = n"
  shows "list_all (\<lambda>p. g p < Suc n) (map_set k v kvs) \<and> distinct (map g (map_set k v kvs)) \<and>
         g ` set (map_set k v kvs) \<subseteq> insert n (g ` set kvs)"
  using assms
proof (induction kvs)
  case Nil
  then show ?case by simp
next
  case (Cons p kvs)
  obtain k' v' where p: "p = (k', v')"
    by (cases p)
  from Cons.prems have small: "\<forall>q \<in> set kvs. g q < n"
    by (simp add: list_all_iff)
  show ?case
  proof (cases "k' = k")
    case True
    with Cons.prems small show ?thesis
      by (auto simp: p list_all_iff less_Suc_eq)
  next
    case False
    from Cons.prems have ih: "list_all (\<lambda>p. g p < Suc n) (map_set k v kvs) \<and>
        distinct (map g (map_set k v kvs)) \<and> g ` set (map_set k v kvs) \<subseteq> insert n (g ` set kvs)"
      by (intro Cons.IH) simp_all
    from Cons.prems have "g (k', v') < n" and "g (k', v') \<notin> g ` set kvs"
      by (simp_all add: p)
    with ih False show ?thesis
      by (auto simp: p less_Suc_eq)
  qed
qed

lemma handles_fresh_perform: "handles_fresh s \<Longrightarrow> handles_fresh (perform a s)"
proof (cases a)
  case (Observe cb el opts i)
  assume "handles_fresh s"
  then show ?thesis
    using handles_map_set [where g = "\<lambda>p. observer (snd p)" and n = "next_handle s"
        and kvs = "observers (self s)" and k = i]
    by (simp add: Observe handles_fresh_def self_observe next_handle_observe)
next
  case (Stop i)
  assume "handles_fresh s"
  then show ?thesis
    by (cases "map_of (observers (self s)) i")
       (auto simp: Stop handles_fresh_def unobserve_absent map_has_def unobserve_present(1,3)
          map_delete_def list_all_iff distinct_map_filter)
next
  case Disconnect
  show ?thesis
    by (simp add: Disconnect handles_fresh_def self_disconnect)
next
  case (Deliver h es)
  assume "handles_fresh s"
  then show ?thesis
    by (simp add: Deliver handles_fresh_def)
qed





subsection \<open>Where the invariant of the data model is kept\<close>

text \<open>\<open>observe\<close>, the stop function, \<open>disconnect\<close> and a delivery without an
  intersecting entry keep every record of the map active.\<close>

lemma records_active_observe:
  assumes "handles_fresh s" and "records_active s"
  shows "records_active (snd (observe cb el opts i s))"
proof -
  let ?s' = "snd (observe cb el opts i s)"
  let ?new = "\<lparr>observer = next_handle s, element = el,
                beforeUnobserve = (case opt_beforeUnobserve opts of Some f \<Rightarrow> f | None \<Rightarrow> NoOp),
                afterUnobserve = (case opt_afterUnobserve opts of Some f \<Rightarrow> f | None \<Rightarrow> NoOp)\<rparr>"
  from assms(1) have fresh: "handles_fresh ?s'"
    using handles_fresh_perform [of s "Observe cb el opts i"] by simp
  have new: "record_active ?s' ?new"
    by (simp add: record_active_def watchers_observe)
  have old: "record_active ?s' (snd p)" if "p \<in> set (observers (self s))" for p
  proof -
    from that assms(1) have "observer (snd p) < next_handle s"
      by (simp add: handles_fresh_def list_all_iff)
    moreover from that assms(2) have "record_active s (snd p)"
      by (simp add: records_active_def list_all_iff)
    ultimately show ?thesis
      by (simp add: record_active_def watchers_observe)
  qed
  have "record_active ?s' (snd p)" if "p \<in> set (observers (self ?s'))" for p
  proof -
    from that have "p \<in> insert (i, ?new) (set (observers (self s)))"
      using set_map_set [of i ?new "observers (self s)"] by (auto simp: self_observe)
    then consider "p = (i, ?new)" | "p \<in> set (observers (self s))"
      by auto
    then show ?thesis
      by cases (simp add: new, rule old)
  qed
  with fresh show ?thesis
    by (simp add: records_active_def handles_fresh_def list_all_iff)
qed

lemma records_active_unobserve:
  assumes "records_active s"
  shows "records_active (unobserve i s)"
proof (cases "map_of (observers (self s)) i")
  case None
  with assms show ?thesis
    by (simp add: unobserve_absent map_has_def)
next
  case (Some r)
  let ?s' = "unobserve i s"
  let ?g = "\<lambda>p. observer (snd p)"
  from assms have inj: "inj_on ?g (set (observers (self s)))"
    by (simp add: records_active_def distinct_map)
  from Some have mem: "(i, r) \<in> set (observers (self s))"
    by (rule map_of_SomeD)
  have "record_active ?s' (snd p)" if p: "p \<in> set (observers (self ?s'))" for p
  proof -
    from p have pin: "p \<in> set (observers (self s))" and pi: "fst p \<noteq> i"
      by (simp_all add: unobserve_present(1) [OF Some] map_delete_def)
    have "?g p \<noteq> ?g (i, r)"
    proof
      assume "?g p = ?g (i, r)"
      with inj have "p = (i, r)"
        using pin mem by (rule inj_onD)
      with pi show False
        by simp
    qed
    moreover from pin assms have "record_active s (snd p)"
      by (simp add: records_active_def list_all_iff)
    ultimately show ?thesis
      by (simp add: record_active_def watchers_unobserve Some)
  qed
  moreover from assms have "distinct (map ?g (observers (self ?s')))"
    by (simp add: records_active_def unobserve_present(1) [OF Some] map_delete_def
          distinct_map_filter)
  ultimately show ?thesis
    by (simp add: records_active_def list_all_iff)
qed

lemma records_active_disconnect: "records_active (disconnect s)"
  by (simp add: records_active_def self_disconnect)

lemma records_active_perform:
  assumes "handles_fresh s" and "records_active s"
    and "case a of Deliver h es \<Rightarrow> list_all (\<lambda>e. \<not> isIntersecting e) es | _ \<Rightarrow> True"
  shows "records_active (perform a s)"
  using assms
  by (cases a)
     (simp_all add: records_active_observe records_active_unobserve records_active_disconnect
        deliver_not_intersecting)

subsection \<open>Callbacks of one observer along a run\<close>

lemma owned_perform: "owned h cb T s \<Longrightarrow> owned h cb T (perform a s)"
proof (cases a)
  case (Observe f el opts i)
  assume "owned h cb T s"
  then show ?thesis
    by (auto simp: Observe owned_def next_handle_observe watchers_observe split: option.splits)
next
  case (Stop i)
  assume "owned h cb T s"
  then show ?thesis
    by (auto simp: Stop owned_def next_handle_unobserve watchers_unobserve split: option.splits)
next
  case Disconnect
  assume "owned h cb T s"
  then show ?thesis
    by (auto simp: Disconnect owned_def watchers_disconnect split: option.splits)
next
  case (Deliver h' es)
  assume o: "owned h cb T s"
  show ?thesis
  proof (cases "h' = h")
    case True
    with o show ?thesis
      by (auto simp: Deliver owned_def watchers_deliver_same split: option.splits)
  next
    case False
    with o show ?thesis
      by (simp add: Deliver owned_def watchers_deliver_other)
  qed
qed

lemma owned_observe: "owned (next_handle s0) cb {el} (snd (observe cb el opts i s0))"
  by (simp add: owned_def next_handle_observe watchers_observe)

lemma callbacks_append: "callbacks h (xs @ ys) = callbacks h xs @ callbacks h ys"
  by (simp add: callbacks_def)

lemma callbacks_disconnect_events: "callbacks h (concat (map (disconnect_events ks) ps)) = []"
  by (induction ps) (simp_all add: callbacks_def disconnect_events_def)

lemma callbacks_entry_events:
  "callbacks h (concat (map (entry_events cb h' ks) es)) =
     (if h' = h then map (CallbackCalled h cb) (filter isIntersecting es) else [])"
  by (induction es) (simp_all add: callbacks_def entry_events_def)

lemma callbacks_perform:
  "callbacks h (new_events s (perform a s)) =
     (case a of
        Deliver h' es \<Rightarrow>
          (case watchers s h' of
             None \<Rightarrow> []
           | Some w \<Rightarrow>
               if h' = h then map (CallbackCalled h (wcallback w)) (filter isIntersecting es)
               else [])
      | _ \<Rightarrow> [])"
proof (cases a)
  case (Observe f el opts i)
  show ?thesis
    by (simp add: Observe new_events_observe callbacks_def)
next
  case (Stop i)
  show ?thesis
    by (simp add: Stop new_events_unobserve callbacks_def split: option.splits)
next
  case Disconnect
  show ?thesis
    by (simp add: Disconnect new_events_disconnect callbacks_disconnect_events)
next
  case (Deliver h' es)
  show ?thesis
  proof (cases "watchers s h'")
    case None
    then show ?thesis
      by (simp add: Deliver new_events_deliver callbacks_def)
  next
    case (Some w)
    then show ?thesis
      by (simp add: Deliver new_events_deliver callbacks_entry_events)
  qed
qed

lemma no_callbacks_once_stopped:
  "owned h cb {} s \<Longrightarrow> valid_run s as \<Longrightarrow> callbacks h (new_events s (run as s)) = []"
proof (induction as arbitrary: s)
  case Nil
  show ?case by (simp add: run_def new_events_same callbacks_def)
next
  case (Cons a as)
  from Cons.prems have adm: "admissible s a" and rest: "valid_run (perform a s) as"
    by simp_all
  have step: "callbacks h (new_events s (perform a s)) = []"
  proof (cases a)
    case (Deliver h' es)
    show ?thesis
    proof (cases "h' = h")
      case True
      with Cons.prems(1) adm Deliver have "es = []"
        by (cases es) (auto simp: owned_def split: option.splits)
      then show ?thesis
        using callbacks_perform [of h s a] by (simp add: Deliver split: option.splits)
    next
      case False
      then show ?thesis
        using callbacks_perform [of h s a] by (simp add: Deliver split: option.splits)
    qed
  qed (use callbacks_perform [of h s a] in simp_all)
  have "callbacks h (new_events (perform a s) (run as (perform a s))) = []"
    using owned_perform [OF Cons.prems(1)] rest by (rule Cons.IH)
  with step show ?case
    by (simp add: new_events_run_Cons callbacks_append)
qed

lemma callbacks_of_run:
  assumes "owned h cb {el} s" and "valid_run s as" and "single_reports h as"
  shows "length (callbacks h (new_events s (run as s))) \<le> 1 \<and>
         (reports_intersecting h as \<longrightarrow>
            (\<exists>e. isIntersecting e \<and> target e = el \<and>
                 callbacks h (new_events s (run as s)) = [CallbackCalled h cb e]))"
  using assms
proof (induction as arbitrary: s)
  case Nil
  show ?case by (simp add: run_def new_events_same callbacks_def)
next
  case (Cons a as)
  from Cons.prems have adm: "admissible s a" and rest: "valid_run (perform a s) as"
    by simp_all
  from Cons.prems(1) obtain w where w: "watchers s h = Some w" "wcallback w = cb"
      "wtargets w \<subseteq> {el}" "h < next_handle s"
    by (auto simp: owned_def split: option.splits)
  let ?s' = "perform a s"
  let ?hits = "case a of Deliver h' es \<Rightarrow> if h' = h then filter isIntersecting es else [] | _ \<Rightarrow> []"
  have step: "callbacks h (new_events s ?s') = map (CallbackCalled h cb) ?hits"
    using w callbacks_perform [of h s a] by (cases a) (auto split: option.splits)
  have split_run: "callbacks h (new_events s (run (a # as) s)) =
      map (CallbackCalled h cb) ?hits @ callbacks h (new_events ?s' (run as ?s'))"
    by (simp add: new_events_run_Cons callbacks_append step)
  show ?case
  proof (cases "?hits = []")
    case True
    then have same: "reports_intersecting h (a # as) = reports_intersecting h as"
      and single: "single_reports h as"
      using Cons.prems(3) by (cases a; auto split: if_splits)+
    have "length (callbacks h (new_events ?s' (run as ?s'))) \<le> 1 \<and>
         (reports_intersecting h as \<longrightarrow>
            (\<exists>e. isIntersecting e \<and> target e = el \<and>
                 callbacks h (new_events ?s' (run as ?s')) = [CallbackCalled h cb e]))"
      using owned_perform [OF Cons.prems(1)] rest single by (rule Cons.IH)
    then show ?thesis
      using True by (simp add: split_run same)
  next
    case False
    then obtain es where a: "a = Deliver h es" and hits: "filter isIntersecting es \<noteq> []"
      by (cases a) (auto split: if_splits)
    from Cons.prems(3) a have "length (filter isIntersecting es) \<le> 1"
      by simp
    with hits obtain e where e: "filter isIntersecting es = [e]"
      by (cases "filter isIntersecting es") auto
    then have "e \<in> set (filter isIntersecting es)"
      by simp
    then have ein: "e \<in> set es" and eint: "isIntersecting e"
      by simp_all
    from adm a w ein have "target e \<in> wtargets w"
      by (simp add: list_all_iff)
    with w have tgt: "target e = el"
      by auto
    have "owned h cb {} ?s'"
      using w tgt by (auto simp: owned_def a watchers_deliver_same e)
    then have none: "callbacks h (new_events ?s' (run as ?s')) = []"
      using rest by (rule no_callbacks_once_stopped)
    have "callbacks h (new_events s (run (a # as) s)) = [CallbackCalled h cb e]"
      unfolding split_run none by (simp add: a e)
    then show ?thesis
      using eint tgt by auto
  qed
qed

text \<open>Where every list delivered to the observer holds at most one intersecting entry,
  and the platform delivers only entries for targets the observer tracks at that moment,
  the callback of one call of \<open>observe\<close> is called at most once, and exactly once if an
  intersecting entry is delivered.\<close>

lemma callback_once_per_single_reports:
  assumes "s1 = snd (observe cb el opts i s0)"
    and "h = next_handle s0"
    and "valid_run s1 as"
    and "single_reports h as"
  shows "length (callbacks h (new_events s1 (run as s1))) \<le> 1 \<and>
         (reports_intersecting h as \<longrightarrow>
            (\<exists>e. isIntersecting e \<and> target e = el \<and>
                 callbacks h (new_events s1 (run as s1)) = [CallbackCalled h cb e]))"
  unfolding assms(1,2)
  by (rule callbacks_of_run [OF owned_observe])
     (use assms in simp_all)

section \<open>The claims\<close>

text \<open>Claim C1, evaluated on the code. One element is observed with both hooks and the
  platform delivers one intersecting entry for it. The handler calls the callback and
  tells the observer to unobserve the element, and that is all: the record stays in the
  map (no delivery ever changes the map, lemma \<open>self_deliver\<close>). A later call of the
  returned stop function therefore runs both hooks, and a later \<open>disconnect\<close> processes
  the id and runs both hooks too.\<close>

theorem auto_fire_keeps_record:
  "new_events one_observed (deliver 0 [seen] one_observed) =
     [(CallbackCalled 0 (UserFn 1) seen, [''a'']), (WatcherUnobserve 0 7, [''a''])] \<and>
   map_has ''a'' (observers (self (deliver 0 [seen] one_observed))) \<and>
   new_events (deliver 0 [seen] one_observed)
     (fst (observe (UserFn 1) 7 demo_hooks ''a'' (new_world None)) (deliver 0 [seen] one_observed)) =
     [(BeforeUnobserveCalled (UserFn 2) 7 0, [''a'']),
      (WatcherUnobserve 0 7, [''a'']),
      (AfterUnobserveCalled (UserFn 3) 7 0, [])] \<and>
   new_events (deliver 0 [seen] one_observed) (disconnect (deliver 0 [seen] one_observed)) =
     [(BeforeUnobserveCalled (UserFn 2) 7 0, [''a'']),
      (WatcherDisconnect 0, [''a'']),
      (AfterUnobserveCalled (UserFn 3) 7 0, [''a''])]"
  by (simp add: evals)

text \<open>Claim C2, evaluated on the code. After \<open>observe\<close> every record of the map is
  active. After the delivery of one intersecting entry the id is still in the map, while
  its observer tracks nothing: the predicate does not hold in this reachable state.\<close>

theorem auto_fire_leaves_stale_record:
  "records_active (run [Observe (UserFn 1) 7 demo_hooks ''a''] (new_world None)) \<and>
   \<not> records_active
       (run [Observe (UserFn 1) 7 demo_hooks ''a'', Deliver 0 [seen]] (new_world None)) \<and>
   map_of (observers (self
       (run [Observe (UserFn 1) 7 demo_hooks ''a'', Deliver 0 [seen]] (new_world None)))) ''a'' =
     Some \<lparr>observer = 0, element = 7, beforeUnobserve = UserFn 2, afterUnobserve = UserFn 3\<rparr> \<and>
   map_option wtargets (watchers
       (run [Observe (UserFn 1) 7 demo_hooks ''a'', Deliver 0 [seen]] (new_world None)) 0) =
     Some {}"
  by (simp add: evals records_active_def record_active_def)

text \<open>Claim C3, evaluated on the code. The constructor's default stands for the whole
  \<^verbatim>\<open>options\<close> argument: an object that gives only \<^verbatim>\<open>rootMargin\<close> leaves
  \<^verbatim>\<open>threshold\<close> undefined instead of 0.1, and an object that gives only
  \<^verbatim>\<open>threshold\<close> leaves \<^verbatim>\<open>rootMargin\<close> undefined instead of \<^verbatim>\<open>'0px'\<close>. The map
  of records is empty in every case.\<close>

theorem constructor_partial_options:
  "threshold (constructor (Some \<lparr>opt_threshold = None, opt_rootMargin = Some ''100px''\<rparr>)) = None \<and>
   threshold (constructor (Some \<lparr>opt_threshold = None, opt_rootMargin = Some ''100px''\<rparr>)) \<noteq> Some 0.1 \<and>
   rootMargin (constructor (Some \<lparr>opt_threshold = Some 0.5, opt_rootMargin = None\<rparr>)) = None \<and>
   observers (constructor (Some \<lparr>opt_threshold = None, opt_rootMargin = Some ''100px''\<rparr>)) = []"
  by (simp add: constructor_def)

text \<open>Claim C4. When the id of a registration is in the map, with record \<open>r\<close>, the
  returned stop function does exactly this: it calls \<open>beforeUnobserve (element, observer)\<close>
  while the id is still among the keys, tells the observer to unobserve the element, again
  with the id among the keys, removes the record, and calls
  \<open>afterUnobserve (element, observer)\<close> when the id is no longer among the keys.\<close>

theorem stop_sequence:
  assumes "stop = fst (observe cb el opts i s0)"
    and "map_of (observers (self s)) i = Some r"
  shows "new_events s (stop s) =
           [(BeforeUnobserveCalled (beforeUnobserve r) (element r) (observer r),
               map_keys (observers (self s))),
            (WatcherUnobserve (observer r) (element r), map_keys (observers (self s))),
            (AfterUnobserveCalled (afterUnobserve r) (element r) (observer r),
               map_keys (observers (self (stop s))))] \<and>
         i \<in> set (map_keys (observers (self s))) \<and>
         i \<notin> set (map_keys (observers (self (stop s)))) \<and>
         observers (self (stop s)) = map_delete i (observers (self s)) \<and>
         watchers (stop s) (observer r) =
           map_option (\<lambda>w. w\<lparr>wtargets := wtargets w - {element r}\<rparr>) (watchers s (observer r))"
proof -
  have st: "stop = unobserve i"
    using assms(1) by (simp add: stop_function)
  note facts = unobserve_present [OF assms(2)]
  have "new_events s (unobserve i s) =
           [(BeforeUnobserveCalled (beforeUnobserve r) (element r) (observer r),
               map_keys (observers (self s))),
            (WatcherUnobserve (observer r) (element r), map_keys (observers (self s))),
            (AfterUnobserveCalled (afterUnobserve r) (element r) (observer r),
               map_keys (observers (self (unobserve i s))))]"
    by (rule new_events_append) (simp add: facts)
  moreover have "i \<in> set (map_keys (observers (self s)))"
    using assms(2) by (rule map_of_in_keys)
  moreover have "i \<notin> set (map_keys (observers (self (unobserve i s))))"
    by (simp add: facts map_keys_map_delete)
  moreover have "observers (self (unobserve i s)) = map_delete i (observers (self s))"
    by (simp add: facts)
  moreover have "watchers (unobserve i s) (observer r) =
           map_option (\<lambda>w. w\<lparr>wtargets := wtargets w - {element r}\<rparr>) (watchers s (observer r))"
    by (simp add: facts split: option.splits)
  ultimately show ?thesis
    unfolding st by blast
qed

theorem stop_sequence_witness:
  "map_of (observers (self two_observed)) ''a'' =
     Some \<lparr>observer = 0, element = 7, beforeUnobserve = UserFn 2, afterUnobserve = UserFn 3\<rparr> \<and>
   new_events two_observed (fst (observe (UserFn 1) 7 demo_hooks ''a'' (new_world None)) two_observed) =
     [(BeforeUnobserveCalled (UserFn 2) 7 0, [''a'', ''b'']),
      (WatcherUnobserve 0 7, [''a'', ''b'']),
      (AfterUnobserveCalled (UserFn 3) 7 0, [''b''])]"
proof -
  have present: "map_of (observers (self two_observed)) ''a'' =
     Some \<lparr>observer = 0, element = 7, beforeUnobserve = UserFn 2, afterUnobserve = UserFn 3\<rparr>"
    by (simp add: evals)
  have before: "map_keys (observers (self two_observed)) = [''a'', ''b'']"
    by (simp add: evals)
  have after: "map_keys (observers (self (fst (observe (UserFn 1) 7 demo_hooks ''a'' (new_world None))
                  two_observed))) = [''b'']"
    by (simp add: evals)
  have "new_events two_observed
          (fst (observe (UserFn 1) 7 demo_hooks ''a'' (new_world None)) two_observed) =
     [(BeforeUnobserveCalled (UserFn 2) 7 0, [''a'', ''b'']),
      (WatcherUnobserve 0 7, [''a'', ''b'']),
      (AfterUnobserveCalled (UserFn 3) 7 0, [''b''])]"
    using stop_sequence [where cb = "UserFn 1" and el = 7 and opts = demo_hooks
        and ?s0.0 = "new_world None", OF refl present]
    by (simp only: before after observer_record.simps)
  with present show ?thesis
    by (rule conjI)
qed

text \<open>Claim C5. When the id is not in the map the stop function returns the state
  unchanged: nothing is called and nothing fails. Calling it twice gives the state that
  calling it once gives; when the id was in the map, the two calls together run
  \<open>beforeUnobserve\<close> once and \<open>afterUnobserve\<close> once.\<close>

theorem stop_twice:
  assumes "stop = fst (observe cb el opts i s0)"
  shows "(\<not> map_has i (observers (self s)) \<longrightarrow> stop s = s \<and> new_events s (stop s) = []) \<and>
         stop (stop s) = stop s \<and>
         (map_has i (observers (self s)) \<longrightarrow>
            before_count (new_events s (stop (stop s))) = 1 \<and>
            after_count (new_events s (stop (stop s))) = 1)"
proof -
  have st: "stop = unobserve i"
    using assms by (simp add: stop_function)
  have absent: "unobserve i t = t" if "\<not> map_has i (observers (self t))" for t
    using that by (rule unobserve_absent)
  have gone: "\<not> map_has i (observers (self (unobserve i s)))"
  proof (cases "map_of (observers (self s)) i")
    case None
    then have "\<not> map_has i (observers (self s))"
      by (simp add: map_has_def)
    then show ?thesis
      by (simp add: absent)
  next
    case (Some r)
    show ?thesis
      by (simp add: unobserve_present(1) [OF Some] map_has_iff map_keys_map_delete)
  qed
  have twice: "unobserve i (unobserve i s) = unobserve i s"
    using gone by (rule absent)
  have counts: "before_count (new_events s (unobserve i s)) = 1 \<and>
                after_count (new_events s (unobserve i s)) = 1"
    if "map_has i (observers (self s))"
  proof -
    from that obtain r where r: "map_of (observers (self s)) i = Some r"
      by (auto simp: map_has_def)
    have "new_events s (unobserve i s) =
           [(BeforeUnobserveCalled (beforeUnobserve r) (element r) (observer r),
               map_keys (observers (self s))),
            (WatcherUnobserve (observer r) (element r), map_keys (observers (self s))),
            (AfterUnobserveCalled (afterUnobserve r) (element r) (observer r),
               map_keys (map_delete i (observers (self s))))]"
      by (rule new_events_append) (simp add: unobserve_present [OF r])
    then show ?thesis
      by (simp add: before_count_def after_count_def)
  qed
  show ?thesis
    unfolding st using absent [of s] twice counts by (simp add: new_events_def)
qed

theorem stop_twice_witness:
  "map_has ''a'' (observers (self one_observed)) \<and>
   \<not> map_has ''a'' (observers (self (unobserve ''a'' one_observed))) \<and>
   unobserve ''a'' (unobserve ''a'' one_observed) = unobserve ''a'' one_observed \<and>
   before_count (new_events one_observed (unobserve ''a'' (unobserve ''a'' one_observed))) = 1 \<and>
   after_count (new_events one_observed (unobserve ''a'' (unobserve ''a'' one_observed))) = 1"
proof -
  have present: "map_has ''a'' (observers (self one_observed))"
    by (simp add: evals)
  have absent: "\<not> map_has ''a'' (observers (self (unobserve ''a'' one_observed)))"
    by (simp add: evals)
  note twice = stop_twice [where cb = "UserFn 1" and el = 7 and opts = demo_hooks
      and i = "''a''" and ?s0.0 = "new_world None" and s = one_observed,
      OF refl, unfolded stop_function]
  show ?thesis
    using present absent twice by blast
qed

text \<open>Claim C6. On a registry whose map holds \<open>N\<close> records, \<open>disconnect\<close> calls, for
  each record in turn, its \<open>beforeUnobserve\<close> with the record's element and observer,
  disconnects the record's observer, and calls its \<open>afterUnobserve\<close> with the same
  arguments: \<open>N\<close> calls of each hook. Every observer of a record then tracks nothing, the
  map is empty and the two settings are as they were, which for a registry that was
  constructed from \<open>options\<close> is the state the constructor gave. On an empty map nothing
  is called and the state is unchanged.\<close>

theorem disconnect_all:
  "map fst (new_events s (disconnect s)) =
     concat (map (\<lambda>p. [BeforeUnobserveCalled (beforeUnobserve (snd p)) (element (snd p)) (observer (snd p)),
                        WatcherDisconnect (observer (snd p)),
                        AfterUnobserveCalled (afterUnobserve (snd p)) (element (snd p)) (observer (snd p))])
               (observers (self s))) \<and>
   before_count (new_events s (disconnect s)) = length (observers (self s)) \<and>
   after_count (new_events s (disconnect s)) = length (observers (self s)) \<and>
   (\<forall>p \<in> set (observers (self s)). \<forall>w.
      watchers (disconnect s) (observer (snd p)) = Some w \<longrightarrow> wtargets w = {}) \<and>
   self (disconnect s) = (self s)\<lparr>observers := []\<rparr> \<and>
   self (disconnect (run as (new_world options))) = constructor options \<and>
   (observers (self s) = [] \<longrightarrow> disconnect s = s \<and> new_events s (disconnect s) = [])"
proof -
  have stopped: "wtargets w = {}"
    if "p \<in> set (observers (self s))" and "watchers (disconnect s) (observer (snd p)) = Some w"
    for p w
    using that by (auto simp: watchers_disconnect)
  have fresh: "self (disconnect (run as (new_world options))) = constructor options"
    unfolding self_disconnect
    by (rule loader_cleared) (simp_all add: new_world_def constructor_def Let_def)
  have empty: "disconnect s = s" if "observers (self s) = []"
  proof -
    have "(self s)\<lparr>observers := []\<rparr> = self s"
      using that by (cases "self s") simp
    then show ?thesis
      using that by (simp add: disconnect_def)
  qed
  show ?thesis
    using stopped fresh empty
    by (simp add: new_events_disconnect disconnect_events_fst disconnect_events_counts
          self_disconnect new_events_same)
qed

theorem disconnect_all_witness:
  "map fst (new_events two_observed (disconnect two_observed)) =
     [BeforeUnobserveCalled (UserFn 2) 7 0, WatcherDisconnect 0, AfterUnobserveCalled (UserFn 3) 7 0,
      BeforeUnobserveCalled NoOp 8 1, WatcherDisconnect 1, AfterUnobserveCalled NoOp 8 1] \<and>
   before_count (new_events two_observed (disconnect two_observed)) = 2 \<and>
   observers (self (disconnect two_observed)) = [] \<and>
   observers (self (new_world None)) = [] \<and>
   disconnect (new_world None) = new_world None"
  using disconnect_all [of two_observed "[]" None] disconnect_all [of "new_world None" "[]" None]
  by (simp add: evals)

text \<open>Claim C7, evaluated on the code. One element is observed; it comes into view,
  leaves and comes back before the handler runs, so the platform hands the handler one
  list of three entries, all for the target the observer tracks at that moment. The
  handler calls the callback for the first entry and tells the observer to unobserve the
  target, and then, still in the same loop over the list, calls the callback again for
  the third entry: two calls for one call of \<open>observe\<close>, where the claim allows at most
  one.\<close>

theorem callback_twice_in_one_delivery:
  "valid_run one_observed [Deliver 0 [seen, unseen, seen]] \<and>
   callbacks 0 (new_events one_observed (run [Deliver 0 [seen, unseen, seen]] one_observed)) =
     [CallbackCalled 0 (UserFn 1) seen, CallbackCalled 0 (UserFn 1) seen] \<and>
   \<not> length (callbacks 0
        (new_events one_observed (run [Deliver 0 [seen, unseen, seen]] one_observed))) \<le> 1"
  by (simp add: evals callbacks_def)



text \<open>Claim C9. Every call that \<open>disconnect\<close> makes, the \<open>afterUnobserve\<close> hooks
  included, happens while the map still holds all the keys it held at the start, the key of
  the record being processed among them; the map is empty only in the final state.\<close>

theorem disconnect_hooks_see_records:
  "new_events s (disconnect s) =
     concat (map (\<lambda>p. [(BeforeUnobserveCalled (beforeUnobserve (snd p)) (element (snd p)) (observer (snd p)),
                          map_keys (observers (self s))),
                        (WatcherDisconnect (observer (snd p)), map_keys (observers (self s))),
                        (AfterUnobserveCalled (afterUnobserve (snd p)) (element (snd p)) (observer (snd p)),
                          map_keys (observers (self s)))])
               (observers (self s))) \<and>
   (\<forall>p \<in> set (observers (self s)). fst p \<in> set (map_keys (observers (self s)))) \<and>
   (\<forall>ev \<in> set (new_events s (disconnect s)). snd ev = map_keys (observers (self s))) \<and>
   observers (self (disconnect s)) = []"
proof -
  have shape: "concat (map (disconnect_events ks) ps) =
     concat (map (\<lambda>p. [(BeforeUnobserveCalled (beforeUnobserve (snd p)) (element (snd p)) (observer (snd p)), ks),
                        (WatcherDisconnect (observer (snd p)), ks),
                        (AfterUnobserveCalled (afterUnobserve (snd p)) (element (snd p)) (observer (snd p)), ks)])
               ps)" for ks ps
    by (induction ps) (simp_all add: disconnect_events_def)
  have snaps: "\<forall>ev \<in> set (concat (map (disconnect_events ks) ps)). snd ev = ks" for ks ps
    by (induction ps) (simp_all add: disconnect_events_def)
  show ?thesis
    using snaps [of "map_keys (observers (self s))" "observers (self s)"]
    by (simp add: new_events_disconnect shape self_disconnect map_keys_def)
qed

theorem disconnect_hooks_see_records_witness:
  "new_events two_observed (disconnect two_observed) =
     [(BeforeUnobserveCalled (UserFn 2) 7 0, [''a'', ''b'']),
      (WatcherDisconnect 0, [''a'', ''b'']),
      (AfterUnobserveCalled (UserFn 3) 7 0, [''a'', ''b'']),
      (BeforeUnobserveCalled NoOp 8 1, [''a'', ''b'']),
      (WatcherDisconnect 1, [''a'', ''b'']),
      (AfterUnobserveCalled NoOp 8 1, [''a'', ''b''])] \<and>
   observers (self (disconnect two_observed)) = []"
  using disconnect_hooks_see_records [of two_observed]
  by (simp add: evals)

text \<open>Claim C10. An entry that is not intersecting changes nothing: the handler leaves
  the state as it is for that entry (no callback, no hook, no call to the observer, the
  same map), so the entry can be dropped from any delivered list, and a list of such
  entries leaves the state unchanged.\<close>

theorem not_intersecting_ignored:
  "(\<not> isIntersecting e \<longrightarrow> on_entry cb h e s = s) \<and>
   (\<not> isIntersecting e \<longrightarrow> deliver h (es @ [e] @ es') s = deliver h (es @ es') s) \<and>
   (list_all (\<lambda>e. \<not> isIntersecting e) es \<longrightarrow> deliver h es s = s)"
proof -
  have dropped: "deliver h (es @ [e] @ es') s = deliver h (es @ es') s" if "\<not> isIntersecting e"
    using that by (simp add: deliver_def on_entry_not_intersecting split: option.splits)
  show ?thesis
    using dropped by (simp add: on_entry_not_intersecting deliver_not_intersecting)
qed

theorem not_intersecting_ignored_witness:
  "\<not> isIntersecting \<lparr>target = 7, isIntersecting = False\<rparr> \<and>
   deliver 0 [\<lparr>target = 7, isIntersecting = False\<rparr>] one_observed = one_observed \<and>
   on_entry (UserFn 1) 0 \<lparr>target = 7, isIntersecting = False\<rparr> one_observed = one_observed"
  using not_intersecting_ignored [where e = "\<lparr>target = 7, isIntersecting = False\<rparr>"
      and cb = "UserFn 1" and h = 0 and s = one_observed and es = "[]" and es' = "[]"]
  by simp

end
